theory Spec2Isabelle
  imports Complex_Main "HOL-Library.Word" "HOL-Library.Multiset" "HOL-Library.Sublist"
begin

section \<open>The arithmetic of \<^verbatim>\<open>double\<close>\<close>

text \<open>
  \<^verbatim>\<open>analyzer.cpp\<close> accumulates \<^verbatim>\<open>int\<close> samples in a \<^verbatim>\<open>double\<close> and divides by
  \<^verbatim>\<open>data.size()\<close>. The model fixes the usual platform: \<^verbatim>\<open>int\<close> is a 32-bit two's
  complement integer and \<^verbatim>\<open>double\<close> is IEEE 754 binary64 (53 significant bits, exponents
  from \<open>-1074\<close> for the last subnormal bit to \<open>1023\<close>), every operation rounded to nearest
  with ties to even, and evaluated in that format (no wider intermediate registers).

  A \<^verbatim>\<open>double\<close> is represented by the rational number it denotes, or by one of the three
  special values. The two zeros are identified: the sum starts at \<open>+0.0\<close>, an exact
  cancellation yields \<open>+0.0\<close> under round-to-nearest, and a quotient of a non-zero sum by a
  count is never small enough to underflow, so \<open>-0.0\<close> does not arise in this program.
\<close>

datatype double = Fin rat | PInf | NInf | NaN

text \<open>
  \<open>ilen b n\<close> is the number of digits of a positive integer \<open>n\<close> in base \<open>b\<close>, and
  \<open>ilog b x\<close> is \<open>\<lfloor>log\<^sub>b x\<rfloor>\<close> for a positive rational \<open>x\<close>, computed on integers.
\<close>

function ilen :: "int \<Rightarrow> int \<Rightarrow> int" where
  "ilen b n = (if 1 < b \<and> 0 < n then ilen b (n div b) + 1 else 0)"
  by pat_completeness auto
termination
  by (relation "measure (\<lambda>(b, n). nat n)") (auto intro: int_div_less_self)

declare ilen.simps [simp del]

definition ilog :: "int \<Rightarrow> rat \<Rightarrow> int" where
  "ilog b x =
     (if 1 \<le> x then ilen b \<lfloor>x\<rfloor> - 1
      else let n = ilen b \<lfloor>1 / x\<rfloor>
           in if 1 / x = of_int b powi (n - 1) then 1 - n else - n)"

text \<open>Rounding to the nearest integer, a tie going to the even neighbour.\<close>

definition round_half_even :: "rat \<Rightarrow> int" where
  "round_half_even x =
     (let f = \<lfloor>x\<rfloor>; r = x - of_int f
      in if r < 1 / 2 then f else if 1 / 2 < r then f + 1 else if even f then f else f + 1)"

text \<open>
  The exponent of the last significant bit of the binary64 numbers around a positive \<open>a\<close>,
  and the magnitude \<open>a\<close> rounds to: a multiple of \<open>2 powi ulp_exp a\<close>.
\<close>

definition ulp_exp :: "rat \<Rightarrow> int" where
  "ulp_exp a = max (ilog 2 a - 52) (- 1074)"

definition round_mag :: "rat \<Rightarrow> rat" where
  "round_mag a = of_int (round_half_even (a / 2 powi ulp_exp a)) * 2 powi ulp_exp a"

text \<open>Rounding a rational to binary64; a magnitude that rounds up to \<open>2 ^ 1024\<close> overflows.\<close>

definition rnd64 :: "rat \<Rightarrow> double" where
  "rnd64 x =
     (if x = 0 then Fin 0
      else if 2 ^ 1024 \<le> round_mag \<bar>x\<bar> then (if 0 < x then PInf else NInf)
      else Fin (sgn x * round_mag \<bar>x\<bar>))"

fun fadd :: "double \<Rightarrow> double \<Rightarrow> double" where
  "fadd NaN _ = NaN"
| "fadd _ NaN = NaN"
| "fadd (Fin a) (Fin b) = rnd64 (a + b)"
| "fadd PInf NInf = NaN"
| "fadd NInf PInf = NaN"
| "fadd PInf _ = PInf"
| "fadd _ PInf = PInf"
| "fadd NInf _ = NInf"
| "fadd _ NInf = NInf"

fun fdiv :: "double \<Rightarrow> double \<Rightarrow> double" where
  "fdiv NaN _ = NaN"
| "fdiv _ NaN = NaN"
| "fdiv (Fin a) (Fin b) =
     (if b = 0 then (if a = 0 then NaN else if 0 < a then PInf else NInf)
      else rnd64 (a / b))"
| "fdiv (Fin a) _ = Fin 0"
| "fdiv PInf (Fin b) = (if 0 \<le> b then PInf else NInf)"
| "fdiv NInf (Fin b) = (if 0 \<le> b then NInf else PInf)"
| "fdiv _ _ = NaN"

text \<open>
  The implicit conversions of \<^verbatim>\<open>sum += value\<close> (\<^verbatim>\<open>int\<close> to \<^verbatim>\<open>double\<close>) and of
  \<^verbatim>\<open>sum / data.size()\<close> (\<^verbatim>\<open>size_t\<close> to \<^verbatim>\<open>double\<close>). The size of a vector is the length
  of the list; it is a natural number here, since a vector never holds more than
  \<^verbatim>\<open>max_size()\<close> elements and \<^verbatim>\<open>size()\<close> cannot wrap around.
\<close>

definition double_of_int :: "32 word \<Rightarrow> double" where
  "double_of_int v = rnd64 (of_int (sint v))"

definition double_of_size :: "nat \<Rightarrow> double" where
  "double_of_size n = rnd64 (of_nat n)"



section \<open>Stream output\<close>

text \<open>
  \<^verbatim>\<open>std::cout\<close> is the text written so far. \<^verbatim>\<open>operator<<\<close> on a \<^verbatim>\<open>double\<close> with the
  stream's default flags formats as \<^verbatim>\<open>printf("%g")\<close> with precision 6: six significant
  decimal digits (correctly rounded), scientific notation when the decimal exponent is
  below \<open>-4\<close> or at least \<open>6\<close>, trailing zeros and a trailing point removed.
\<close>

type_synonym ostream = string

definition endl :: "ostream \<Rightarrow> ostream" where
  "endl out = out @ [CHR 0x0A]"

definition put_string :: "string \<Rightarrow> ostream \<Rightarrow> ostream" where
  "put_string s out = out @ s"

definition digit_char :: "nat \<Rightarrow> char" where
  "digit_char d = ''0123456789'' ! d"

fun digits :: "nat \<Rightarrow> string" where
  "digits n = (if n < 10 then [digit_char n] else digits (n div 10) @ [digit_char (n mod 10)])"

declare digits.simps [simp del]

definition strip_zeros :: "string \<Rightarrow> string" where
  "strip_zeros s = rev (dropWhile (\<lambda>c. c = CHR ''0'') (rev s))"

definition with_point :: "string \<Rightarrow> string \<Rightarrow> string" where
  "with_point ip fr = (if fr = [] then ip else ip @ CHR ''.'' # fr)"

definition fmt_g :: "rat \<Rightarrow> string" where
  "fmt_g a =
     (let x0 = ilog 10 a;
          d0 = round_half_even (a / 10 powi (x0 - 5));
          x = (if d0 = 10 ^ 6 then x0 + 1 else x0);
          ds = digits (nat (if d0 = 10 ^ 6 then 10 ^ 5 else d0))
      in if x < - 4 \<or> 6 \<le> x then
           with_point (take 1 ds) (strip_zeros (drop 1 ds)) @ ''e'' @ (if x < 0 then ''-'' else ''+'')
             @ (if \<bar>x\<bar> < 10 then ''0'' else []) @ digits (nat \<bar>x\<bar>)
         else if 0 \<le> x then
           with_point (take (nat x + 1) ds) (strip_zeros (drop (nat x + 1) ds))
         else
           ''0.'' @ replicate (nat (- x - 1)) (CHR ''0'') @ strip_zeros ds)"

fun show_double :: "double \<Rightarrow> string" where
  "show_double (Fin q) =
     (if q = 0 then ''0'' else if q < 0 then ''-'' @ fmt_g (- q) else fmt_g q)"
| "show_double PInf = ''inf''"
| "show_double NInf = ''-inf''"
| "show_double NaN = ''nan''"

definition put_double :: "double \<Rightarrow> ostream \<Rightarrow> ostream" where
  "put_double d out = out @ show_double d"


section \<open>The class \<^verbatim>\<open>Analyzer\<close>\<close>

record Analyzer =
  name :: string
  data :: "32 word list"

text \<open>\<^verbatim>\<open>Analyzer(const std::string& name) : name(name) {}\<close>\<close>

definition Analyzer_ctor :: "string \<Rightarrow> Analyzer" where
  "Analyzer_ctor n = \<lparr>name = n, data = []\<rparr>"

text \<open>\<^verbatim>\<open>void addData(int value) { data.push_back(value); }\<close>\<close>

definition addData :: "32 word \<Rightarrow> Analyzer \<Rightarrow> Analyzer" where
  "addData v a = a\<lparr>data := data a @ [v]\<rparr>"

text \<open>\<^verbatim>\<open>for (int value : data) { sum += value; }\<close>, from the current value \<open>s\<close> of \<^verbatim>\<open>sum\<close>.\<close>

fun sum_loop :: "32 word list \<Rightarrow> double \<Rightarrow> double" where
  "sum_loop [] s = s"
| "sum_loop (v # rest) s = sum_loop rest (fadd s (double_of_int v))"

definition calculateAverage :: "Analyzer \<Rightarrow> double" where
  "calculateAverage a =
     (if data a = [] then Fin 0
      else fdiv (sum_loop (data a) (Fin 0)) (double_of_size (length (data a))))"

definition printReport :: "Analyzer \<Rightarrow> ostream \<Rightarrow> ostream" where
  "printReport a out =
     (let out = endl (put_string (name a) (put_string ''Analyzer: '' out))
      in endl (put_double (calculateAverage a) (put_string ''Average: '' out)))"


section \<open>Sequences of calls on one object\<close>

text \<open>
  A client holds one \<^verbatim>\<open>Analyzer\<close> and the standard output, and calls the public member
  functions in any order. A call returns its value together with the object and the
  stream after it.
\<close>

datatype call = AddData "32 word" | CalculateAverage | PrintReport

datatype reply = Void | Value double

fun invoke :: "call \<Rightarrow> Analyzer \<times> ostream \<Rightarrow> reply \<times> Analyzer \<times> ostream" where
  "invoke (AddData v) (a, out) = (Void, addData v a, out)"
| "invoke CalculateAverage (a, out) = (Value (calculateAverage a), a, out)"
| "invoke PrintReport (a, out) = (Void, a, printReport a out)"

fun run :: "call list \<Rightarrow> Analyzer \<times> ostream \<Rightarrow> Analyzer \<times> ostream" where
  "run [] s = s"
| "run (c # cs) s = run cs (snd (invoke c s))"

text \<open>The samples a sequence of calls adds, in order.\<close>

fun added :: "call list \<Rightarrow> 32 word list" where
  "added [] = []"
| "added (AddData v # cs) = v # added cs"
| "added (_ # cs) = added cs"

text \<open>The object after \<^verbatim>\<open>addData\<close> has been called on each value of a list, in order.\<close>

definition add_all :: "32 word list \<Rightarrow> Analyzer \<Rightarrow> Analyzer" where
  "add_all vs a = fold addData vs a"

text \<open>
  The mean as the specification words it: the samples widened to floating point, summed
  in floating point from \<open>0.0\<close> in insertion order, and divided in floating point by the
  count.
\<close>

definition float_sum :: "double list \<Rightarrow> double" where
  "float_sum ds = foldl fadd (Fin 0) ds"

definition spec_mean :: "32 word list \<Rightarrow> double" where
  "spec_mean vs = fdiv (float_sum (map double_of_int vs)) (double_of_size (length vs))"

text \<open>
  The sum of the magnitudes of the samples. While it stays within \<open>2 ^ 53\<close>, every
  partial sum, in any order, is an integer that binary64 represents exactly.
\<close>

definition abs_total :: "32 word list \<Rightarrow> int" where
  "abs_total vs = sum_list (map (\<lambda>v. \<bar>sint v\<bar>) vs)"


section \<open>Facts about rounding\<close>

text \<open>The digit count brackets its argument between two powers of the base.\<close>

lemma ilen_pos: "1 < b \<Longrightarrow> 0 < n \<Longrightarrow> 1 \<le> ilen b n"
proof (induction b n rule: ilen.induct)
  case (1 b n)
  show ?case
  proof (cases "0 < n div b")
    case True
    with 1 have "1 \<le> ilen b (n div b)" by simp
    with 1 show ?thesis by (subst ilen.simps) simp
  next
    case False
    then have "ilen b (n div b) = 0" by (subst ilen.simps) simp
    with 1 show ?thesis by (subst ilen.simps) simp
  qed
qed

lemma ilen_bounds:
  "1 < b \<Longrightarrow> 0 < n \<Longrightarrow> b ^ nat (ilen b n - 1) \<le> n \<and> n < b ^ nat (ilen b n)"
proof (induction b n rule: ilen.induct)
  case (1 b n)
  have unfold: "ilen b n = ilen b (n div b) + 1"
    using 1(2,3) by (subst ilen.simps) simp
  show ?case
  proof (cases "0 < n div b")
    case False
    with 1(2,3) have small: "n < b"
      by (simp add: pos_imp_zdiv_pos_iff)
    from False have "ilen b (n div b) = 0" by (subst ilen.simps) simp
    with unfold small 1(3) show ?thesis by simp
  next
    case True
    let ?k = "ilen b (n div b)"
    from True 1 have IH: "b ^ nat (?k - 1) \<le> n div b" "n div b < b ^ nat ?k"
      by simp_all
    from True 1(2) have kpos: "1 \<le> ?k" by (rule ilen_pos [rotated])
    have nk: "nat ?k = Suc (nat (?k - 1))" using kpos by simp
    have "b * b ^ nat (?k - 1) \<le> b * (n div b)"
      using IH(1) 1(2) by simp
    also have "\<dots> \<le> n"
    proof -
      have "n = b * (n div b) + n mod b" by simp
      moreover have "0 \<le> n mod b" using 1(2) by simp
      ultimately show ?thesis by linarith
    qed
    finally have lo: "b ^ nat ?k \<le> n" by (simp add: nk)
    have "n div b + 1 \<le> b ^ nat ?k" using IH(2) by simp
    then have "b * (n div b + 1) \<le> b * b ^ nat ?k"
      using 1(2) by simp
    moreover have "n < b * (n div b + 1)"
    proof -
      have "n = b * (n div b) + n mod b" by simp
      moreover have "n mod b < b" using 1(2) by simp
      ultimately show ?thesis by (simp only: distrib_left mult_1_right)
    qed
    ultimately have hi: "n < b ^ Suc (nat ?k)" by simp
    have "nat (ilen b n) = Suc (nat ?k)" using unfold kpos by simp
    moreover have "nat (ilen b n - 1) = nat ?k" using unfold by simp
    ultimately show ?thesis using lo hi by simp
  qed
qed


lemma ilog2_bounds:
  assumes "0 < x"
  shows "2 powi ilog 2 x \<le> x \<and> x < 2 powi (ilog 2 x + 1)"
proof (cases "1 \<le> x")
  case True
  let ?n = "\<lfloor>x\<rfloor>"
  let ?d = "ilen 2 ?n"
  have npos: "0 < ?n" using True by simp
  have dpos: "1 \<le> ?d" using npos by (simp add: ilen_pos)
  have b: "2 ^ nat (?d - 1) \<le> ?n" "?n < 2 ^ nat ?d"
    using ilen_bounds [of 2 ?n] npos by simp_all
  have il: "ilog 2 x = ?d - 1" using True by (simp add: ilog_def)
  have "(2::rat) powi (?d - 1) = of_int (2 ^ nat (?d - 1))"
    using dpos by (simp add: power_int_nonneg_exp)
  also have "\<dots> \<le> of_int ?n" using b(1) by (simp only: of_int_le_iff)
  also have "\<dots> \<le> x" by simp
  finally have lo: "2 powi (?d - 1) \<le> x" .
  have "?n + 1 \<le> 2 ^ nat ?d" using b(2) by simp
  then have "(of_int (?n + 1) :: rat) \<le> of_int (2 ^ nat ?d)" by (simp only: of_int_le_iff)
  moreover have "x < of_int (?n + 1)" by linarith
  ultimately have "x < of_int (2 ^ nat ?d)" by linarith
  also have "\<dots> = 2 powi ?d" using dpos by (simp add: power_int_nonneg_exp)
  finally have hi: "x < 2 powi ?d" .
  show ?thesis using lo hi il by simp
next
  case False
  define y where "y = 1 / x"
  have ypos: "1 < y" using False assms by (simp add: y_def)
  have xy: "x = 1 / y" by (simp add: y_def)
  let ?n = "\<lfloor>y\<rfloor>"
  let ?d = "ilen 2 ?n"
  have npos: "0 < ?n" using ypos by simp
  have dpos: "1 \<le> ?d" using npos by (simp add: ilen_pos)
  have b: "2 ^ nat (?d - 1) \<le> ?n" "?n < 2 ^ nat ?d"
    using ilen_bounds [of 2 ?n] npos by simp_all
  have "(2::rat) powi (?d - 1) = of_int (2 ^ nat (?d - 1))"
    using dpos by (simp add: power_int_nonneg_exp)
  also have "\<dots> \<le> of_int ?n" using b(1) by (simp only: of_int_le_iff)
  also have "\<dots> \<le> y" by simp
  finally have lo: "2 powi (?d - 1) \<le> y" .
  have "?n + 1 \<le> 2 ^ nat ?d" using b(2) by simp
  then have "(of_int (?n + 1) :: rat) \<le> of_int (2 ^ nat ?d)" by (simp only: of_int_le_iff)
  moreover have "y < of_int (?n + 1)" by linarith
  ultimately have "y < of_int (2 ^ nat ?d)" by linarith
  also have "\<dots> = 2 powi ?d" using dpos by (simp add: power_int_nonneg_exp)
  finally have hi: "y < 2 powi ?d" .
  have p1: "(2::rat) powi (1 - ?d) = 1 / 2 powi (?d - 1)"
    using power_int_minus_divide [of "2::rat" "?d - 1"] by simp
  have p2: "(2::rat) powi (- ?d) = 1 / 2 powi ?d"
    by (simp add: power_int_minus_divide)
  have p3: "(2::rat) powi (2 - ?d) = 2 * 2 powi (1 - ?d)"
    using power_int_add [of "2::rat" 1 "1 - ?d"] by simp
  show ?thesis
  proof (cases "y = 2 powi (?d - 1)")
    case True
    then have il: "ilog 2 x = 1 - ?d"
      using False by (simp add: ilog_def y_def Let_def)
    have "2 powi (1 - ?d) = x" using True p1 xy by simp
    moreover have "x < 2 powi (1 - ?d + 1)"
      using p3 calculation assms by (simp add: algebra_simps)
    ultimately show ?thesis using il by simp
  next
    case neq: False
    then have il: "ilog 2 x = - ?d"
      using False by (simp add: ilog_def y_def Let_def)
    have pp: "0 < (2::rat) powi ?d" "0 < (2::rat) powi (?d - 1)" by simp_all
    have "1 / 2 powi ?d \<le> 1 / y"
      using hi ypos by (intro divide_left_mono) (simp_all add: less_imp_le)
    then have l: "2 powi (- ?d) \<le> x" using p2 xy by simp
    have "2 powi (?d - 1) < y" using lo neq by simp
    then have "1 / y < 1 / 2 powi (?d - 1)"
      using pp(2) ypos by (intro divide_strict_left_mono) simp_all
    then have h: "x < 2 powi (- ?d + 1)" using p1 xy by (simp add: add.commute)
    show ?thesis using l h il by simp
  qed
qed

lemma ilog2_unique:
  assumes "2 powi k \<le> x" "x < 2 powi (k + 1)"
  shows "ilog 2 x = k"
proof -
  have xpos: "0 < x"
    using assms(1) zero_less_power_int [of "2::rat" k] by linarith
  note b = ilog2_bounds [OF xpos]
  have "2 powi k < (2::rat) powi (ilog 2 x + 1)" using assms(1) b by linarith
  then have "k < ilog 2 x + 1"
    by (metis not_less power_int_increasing one_le_numeral)
  moreover have "2 powi ilog 2 x < (2::rat) powi (k + 1)" using assms(2) b by linarith
  then have "ilog 2 x < k + 1"
    by (metis not_less power_int_increasing one_le_numeral)
  ultimately show ?thesis by simp
qed

lemma ilog2_ge: "2 powi k \<le> x \<Longrightarrow> k \<le> ilog 2 x"
proof -
  assume a: "2 powi k \<le> x"
  have xpos: "0 < x" using a zero_less_power_int [of "2::rat" k] by linarith
  have "2 powi k < (2::rat) powi (ilog 2 x + 1)" using a ilog2_bounds [OF xpos] by linarith
  then have "k < ilog 2 x + 1"
    by (metis not_less power_int_increasing one_le_numeral)
  then show ?thesis by simp
qed

lemma ilog2_le: "0 < x \<Longrightarrow> x \<le> 2 powi k \<Longrightarrow> ilog 2 x \<le> k"
proof -
  assume xpos: "0 < x" and a: "x \<le> 2 powi k"
  have "2 powi ilog 2 x \<le> (2::rat) powi k" using a ilog2_bounds [OF xpos] by linarith
  then show ?thesis
    by (metis not_less power_int_strict_increasing one_less_numeral_iff semiring_norm(76))
qed

lemma round_half_even_of_int [simp]: "round_half_even (of_int n) = n"
  by (simp add: round_half_even_def)

lemma round_half_even_le: "x \<le> of_int n \<Longrightarrow> round_half_even x \<le> n"
proof -
  assume a: "x \<le> of_int n"
  show ?thesis
  proof (cases "x = of_int n")
    case True
    then show ?thesis by simp
  next
    case False
    with a have "x < of_int n" by simp
    then have "\<lfloor>x\<rfloor> < n" by (simp add: floor_less_iff)
    then show ?thesis by (simp add: round_half_even_def Let_def)
  qed
qed

lemma round_half_even_ge: "of_int n \<le> x \<Longrightarrow> n \<le> round_half_even x"
proof -
  assume "of_int n \<le> x"
  then have "n \<le> \<lfloor>x\<rfloor>" by (simp add: le_floor_iff)
  then show ?thesis by (simp add: round_half_even_def Let_def)
qed

lemma round_half_even_below_half:
  assumes "of_int n \<le> x" "x < of_int n + 1 / 2"
  shows "round_half_even x = n"
proof -
  have "\<lfloor>x\<rfloor> = n" using assms by (intro floor_unique) simp_all
  then show ?thesis using assms by (simp add: round_half_even_def Let_def)
qed


lemma pow2_split:
  assumes "e \<le> j"
  shows "(2::rat) powi j = of_int (2 ^ nat (j - e)) * 2 powi e"
proof -
  have "(2::rat) powi j = 2 powi (j - e) * 2 powi e"
    using power_int_add [of "2::rat" "j - e" e] by simp
  also have "(2::rat) powi (j - e) = of_int (2 ^ nat (j - e))"
    using assms by (simp add: power_int_nonneg_exp)
  finally show ?thesis .
qed

lemma round_mag_grid_le:
  assumes "ulp_exp a \<le> j" "a \<le> 2 powi j"
  shows "round_mag a \<le> 2 powi j"
proof -
  let ?e = "ulp_exp a"
  let ?N = "2 ^ nat (j - ?e) :: int"
  have pe: "0 < (2::rat) powi ?e" by simp
  have split: "(2::rat) powi j = of_int ?N * 2 powi ?e" by (rule pow2_split [OF assms(1)])
  have "a / 2 powi ?e \<le> of_int ?N"
    using assms(2) pe unfolding split by (simp add: pos_divide_le_eq)
  then have "round_half_even (a / 2 powi ?e) \<le> ?N" by (rule round_half_even_le)
  then have "(of_int (round_half_even (a / 2 powi ?e)) :: rat) \<le> of_int ?N"
    by (simp only: of_int_le_iff)
  then have "of_int (round_half_even (a / 2 powi ?e)) * 2 powi ?e \<le> (of_int ?N :: rat) * 2 powi ?e"
    using pe by (simp only: mult_le_cancel_right_pos)
  then show ?thesis unfolding round_mag_def split .
qed

lemma round_mag_grid_ge:
  assumes "ulp_exp a \<le> j" "2 powi j \<le> a"
  shows "2 powi j \<le> round_mag a"
proof -
  let ?e = "ulp_exp a"
  let ?N = "2 ^ nat (j - ?e) :: int"
  have pe: "0 < (2::rat) powi ?e" by simp
  have split: "(2::rat) powi j = of_int ?N * 2 powi ?e" by (rule pow2_split [OF assms(1)])
  have "of_int ?N \<le> a / 2 powi ?e"
    using assms(2) pe unfolding split by (simp add: pos_le_divide_eq)
  then have "?N \<le> round_half_even (a / 2 powi ?e)" by (rule round_half_even_ge)
  then have "(of_int ?N :: rat) \<le> of_int (round_half_even (a / 2 powi ?e))"
    by (simp only: of_int_le_iff)
  then have "(of_int ?N :: rat) * 2 powi ?e \<le> of_int (round_half_even (a / 2 powi ?e)) * 2 powi ?e"
    using pe by (simp only: mult_le_cancel_right_pos)
  then show ?thesis unfolding round_mag_def split .
qed

lemma round_mag_le:
  assumes "0 < a" "a \<le> 2 powi k" "- 1074 \<le> k"
  shows "round_mag a \<le> 2 powi k"
proof -
  have "ilog 2 a \<le> k" using assms(1,2) by (rule ilog2_le)
  then have "ulp_exp a \<le> k" using assms(3) by (simp add: ulp_exp_def)
  then show ?thesis using assms(2) by (rule round_mag_grid_le)
qed

lemma round_mag_ge:
  assumes "2 powi k \<le> a" "- 1074 \<le> k"
  shows "2 powi k \<le> round_mag a"
proof (cases "ulp_exp a \<le> k")
  case True
  then show ?thesis using assms(1) by (rule round_mag_grid_ge)
next
  case False
  have apos: "0 < a" using assms(1) zero_less_power_int [of "2::rat" k] by linarith
  let ?L = "ilog 2 a"
  from False assms(2) have e: "ulp_exp a = ?L - 52" by (simp add: ulp_exp_def max_def split: if_splits)
  have "k \<le> ?L" using assms(1) by (rule ilog2_ge)
  then have "(2::rat) powi k \<le> 2 powi ?L" by (intro power_int_increasing) simp_all
  also have "\<dots> \<le> round_mag a"
    using ilog2_bounds [OF apos] e by (intro round_mag_grid_ge) simp_all
  finally show ?thesis .
qed

lemma round_mag_nonneg: "0 \<le> a \<Longrightarrow> 0 \<le> round_mag a"
proof -
  assume "0 \<le> a"
  then have "of_int 0 \<le> a / 2 powi ulp_exp a" by simp
  then have "0 \<le> round_half_even (a / 2 powi ulp_exp a)" by (rule round_half_even_ge)
  then show ?thesis by (simp add: round_mag_def)
qed

lemma round_mag_on_grid:
  assumes "a / 2 powi ulp_exp a = of_int m"
  shows "round_mag a = a"
proof -
  have "round_mag a = of_int m * 2 powi ulp_exp a"
    by (simp add: round_mag_def assms)
  also have "\<dots> = a / 2 powi ulp_exp a * 2 powi ulp_exp a" by (simp only: assms)
  also have "\<dots> = a" by simp
  finally show ?thesis .
qed

lemma round_mag_int:
  assumes "0 < i" "i \<le> 2 ^ 53"
  shows "round_mag (of_int i) = of_int i"
proof -
  let ?a = "of_int i :: rat"
  let ?L = "ilog 2 ?a"
  have apos: "0 < ?a" using assms(1) by simp
  have "(2::rat) powi 0 \<le> ?a" using assms(1) by simp
  then have L0: "0 \<le> ?L" by (rule ilog2_ge)
  have "?a \<le> of_int (2 ^ 53)" using assms(2) by (simp only: of_int_le_iff)
  then have "?a \<le> 2 powi 53" by simp
  with apos have L53: "?L \<le> 53" by (rule ilog2_le)
  have e: "ulp_exp ?a = ?L - 52" using L0 by (simp add: ulp_exp_def)
  show ?thesis
  proof (cases "?L \<le> 52")
    case True
    have "(2::rat) powi (?L - 52) = 1 / 2 powi (52 - ?L)"
      using power_int_minus_divide [of "2::rat" "52 - ?L"] by simp
    also have "(2::rat) powi (52 - ?L) = of_int (2 ^ nat (52 - ?L))"
      using True by (simp add: power_int_nonneg_exp)
    finally have "?a / 2 powi ulp_exp ?a = of_int (i * 2 ^ nat (52 - ?L))"
      by (simp add: e)
    then show ?thesis by (rule round_mag_on_grid)
  next
    case False
    with L53 have L: "?L = 53" by simp
    have "2 powi ?L \<le> ?a" using ilog2_bounds [OF apos] by simp
    then have "(of_int (2 ^ 53) :: rat) \<le> of_int i" by (simp add: L)
    then have "2 ^ 53 \<le> i" by (simp only: of_int_le_iff)
    with assms(2) have i: "i = 2 ^ 53" by simp
    have "?a / 2 powi (53 - 52) = of_int (2 ^ 52)"
      by (simp add: i)
    then have "?a / 2 powi ulp_exp ?a = of_int (2 ^ 52)"
      unfolding e L .
    then show ?thesis by (rule round_mag_on_grid)
  qed
qed

lemma round_mag_absorb:
  assumes "2 ^ 90 \<le> a" "a \<le> 2 ^ 90 + 2 ^ 32"
  shows "round_mag a = 2 ^ 90"
proof -
  have "2 powi 90 \<le> a" "a < 2 powi (90 + 1)" using assms by simp_all
  then have L: "ilog 2 a = 90" by (rule ilog2_unique)
  have e: "ulp_exp a = 38" by (simp add: ulp_exp_def L)
  have "of_int (2 ^ 52) \<le> a / 2 ^ 38" using assms(1) by (simp add: pos_le_divide_eq)
  moreover have "a / 2 ^ 38 < of_int (2 ^ 52) + 1 / 2"
    using assms(2) by (simp add: pos_divide_less_eq)
  ultimately have "round_half_even (a / 2 ^ 38) = 2 ^ 52"
    by (rule round_half_even_below_half)
  then show ?thesis by (simp add: round_mag_def e)
qed

lemma rnd64_int:
  assumes "\<bar>i\<bar> \<le> 2 ^ 53"
  shows "rnd64 (of_int i) = Fin (of_int i)"
proof (cases "i = 0")
  case True
  then show ?thesis by (simp add: rnd64_def)
next
  case False
  then have "0 < \<bar>i\<bar>" by simp
  then have rm: "round_mag (of_int \<bar>i\<bar>) = of_int \<bar>i\<bar>" using assms by (rule round_mag_int)
  have "(of_int \<bar>i\<bar> :: rat) \<le> of_int (2 ^ 53)" using assms by (simp only: of_int_le_iff)
  then have small: "\<not> 2 ^ 1024 \<le> (of_int \<bar>i\<bar> :: rat)" by simp
  have abs: "\<bar>of_int i :: rat\<bar> = of_int \<bar>i\<bar>" by simp
  have "sgn (of_int i :: rat) * of_int \<bar>i\<bar> = of_int i"
    by (simp add: sgn_if)
  then show ?thesis using False small unfolding rnd64_def abs rm by simp
qed

lemma rnd64_bounded:
  assumes "\<bar>x\<bar> \<le> 2 ^ 90 + 2 ^ 32"
  shows "\<exists>y. rnd64 x = Fin y \<and> \<bar>y\<bar> \<le> 2 ^ 90"
proof (cases "x = 0")
  case True
  then show ?thesis by (simp add: rnd64_def)
next
  case False
  then have apos: "0 < \<bar>x\<bar>" by simp
  have rm: "round_mag \<bar>x\<bar> \<le> 2 ^ 90"
  proof (cases "\<bar>x\<bar> \<le> 2 ^ 90")
    case True
    then have "\<bar>x\<bar> \<le> 2 powi 90" by simp
    with apos have "round_mag \<bar>x\<bar> \<le> 2 powi 90" by (rule round_mag_le) simp
    then show ?thesis by simp
  next
    case False
    then have "2 ^ 90 \<le> \<bar>x\<bar>" by simp
    then have "round_mag \<bar>x\<bar> = 2 ^ 90" using assms by (rule round_mag_absorb)
    then show ?thesis by simp
  qed
  have nn: "0 \<le> round_mag \<bar>x\<bar>" by (rule round_mag_nonneg) simp
  have small: "\<not> 2 ^ 1024 \<le> round_mag \<bar>x\<bar>" using rm by simp
  have "\<bar>sgn x * round_mag \<bar>x\<bar>\<bar> \<le> 2 ^ 90"
    using rm nn False by (simp add: abs_mult abs_sgn_eq)
  then show ?thesis using False small by (simp add: rnd64_def)
qed

lemma rnd64_ge_one:
  assumes "1 \<le> x"
  shows "rnd64 x = PInf \<or> (\<exists>y. rnd64 x = Fin y \<and> 1 \<le> y)"
proof -
  have "2 powi 0 \<le> \<bar>x\<bar>" using assms by simp
  then have "2 powi 0 \<le> round_mag \<bar>x\<bar>" by (rule round_mag_ge) simp
  then have "1 \<le> sgn x * round_mag \<bar>x\<bar>" using assms by (simp add: sgn_if)
  then show ?thesis using assms by (simp add: rnd64_def)
qed

text \<open>
  The model rounds to nearest on the binary64 grid: the result is a significand of at
  most 53 bits times the last-bit weight, within half that weight of the argument.
\<close>

lemma round_half_even_error: "\<bar>of_int (round_half_even x) - x\<bar> \<le> 1 / 2"
proof -
  have "of_int \<lfloor>x\<rfloor> \<le> x" "x < of_int \<lfloor>x\<rfloor> + 1" by linarith+
  then show ?thesis by (auto simp: round_half_even_def Let_def)
qed

lemma round_mag_error: "\<bar>round_mag a - a\<bar> \<le> 2 powi ulp_exp a / 2"
proof -
  let ?p = "2 powi ulp_exp a :: rat"
  let ?m = "round_half_even (a / ?p)"
  have p: "0 < ?p" by simp
  have "round_mag a - a = (of_int ?m - a / ?p) * ?p"
    by (simp add: round_mag_def algebra_simps)
  then have "\<bar>round_mag a - a\<bar> = \<bar>of_int ?m - a / ?p\<bar> * ?p"
    using p by (simp add: abs_mult)
  also have "\<dots> \<le> 1 / 2 * ?p"
    using round_half_even_error [of "a / ?p"] p by (intro mult_right_mono) simp_all
  finally show ?thesis by simp
qed

lemma round_mag_significand:
  assumes "0 < a"
  shows "0 \<le> round_half_even (a / 2 powi ulp_exp a) \<and>
         round_half_even (a / 2 powi ulp_exp a) \<le> 2 ^ 53"
proof -
  let ?e = "ulp_exp a"
  have p: "0 < (2::rat) powi ?e" by simp
  have "ilog 2 a + 1 \<le> ?e + 53" by (simp add: ulp_exp_def)
  then have "(2::rat) powi (ilog 2 a + 1) \<le> 2 powi (?e + 53)"
    by (intro power_int_increasing) simp_all
  also have "\<dots> = 2 powi 53 * 2 powi ?e"
    using power_int_add [of "2::rat" 53 ?e] by (simp add: add.commute)
  finally have "a \<le> 2 powi 53 * 2 powi ?e"
    using ilog2_bounds [OF assms] by linarith
  then have "a / 2 powi ?e \<le> of_int (2 ^ 53)"
    using p by (simp add: pos_divide_le_eq)
  then have hi: "round_half_even (a / 2 powi ?e) \<le> 2 ^ 53" by (rule round_half_even_le)
  have "of_int 0 \<le> a / 2 powi ?e" using assms by simp
  then have "0 \<le> round_half_even (a / 2 powi ?e)" by (rule round_half_even_ge)
  with hi show ?thesis by simp
qed

text \<open>Certificates for rounding one given number, and the roundings used below.\<close>

lemma round_half_even_nearest:
  assumes "of_int m - 1 / 2 < x" "x < of_int m + 1 / 2"
  shows "round_half_even x = m"
proof (cases "of_int m \<le> x")
  case True
  then show ?thesis using assms(2) by (rule round_half_even_below_half)
next
  case False
  then have "\<lfloor>x\<rfloor> = m - 1" using assms(1) by (intro floor_unique) simp_all
  then show ?thesis using assms(1) False by (simp add: round_half_even_def Let_def)
qed

lemma round_half_even_tie:
  assumes "x = of_int m + 1 / 2" "even m"
  shows "round_half_even x = m"
proof -
  have "\<lfloor>x\<rfloor> = m" unfolding assms(1) by (intro floor_unique) simp_all
  then show ?thesis using assms by (simp add: round_half_even_def Let_def)
qed

lemma round_mag_normal:
  assumes "2 powi L \<le> a" "a < 2 powi (L + 1)" "- 1022 \<le> L"
    and "round_half_even (a / 2 powi (L - 52)) = m"
  shows "round_mag a = of_int m * 2 powi (L - 52)"
proof -
  have "ilog 2 a = L" using assms(1,2) by (rule ilog2_unique)
  then have "ulp_exp a = L - 52" using assms(3) by (simp add: ulp_exp_def)
  then show ?thesis using assms(4) by (simp add: round_mag_def)
qed

lemma rnd64_neg:
  assumes "0 < a" "round_mag a = y" "y < 2 ^ 1024"
  shows "rnd64 (- a) = Fin (- y)"
  using assms by (simp add: rnd64_def)

lemma rnd64_pos:
  assumes "0 < a" "round_mag a = y" "y < 2 ^ 1024"
  shows "rnd64 a = Fin y"
  using assms by (simp add: rnd64_def)

lemma round_tie_at_2_53: "rnd64 (- 9007199254740993) = Fin (- 9007199254740992)"
proof -
  have "round_half_even (9007199254740993 / 2 powi (53 - 52)) = 4503599627370496"
    by (rule round_half_even_tie) simp_all
  then have "round_mag 9007199254740993 = of_int 4503599627370496 * 2 powi (53 - 52)"
    by (intro round_mag_normal) simp_all
  then have "round_mag 9007199254740993 = 9007199254740992" by simp
  then show ?thesis by (intro rnd64_neg) simp_all
qed

lemma round_even_above_2_53: "rnd64 (- 9007199254740994) = Fin (- 9007199254740994)"
proof -
  have "9007199254740994 / 2 powi (53 - 52) = (of_int 4503599627370497 :: rat)"
    by simp
  then have "round_half_even (9007199254740994 / 2 powi (53 - 52)) = 4503599627370497"
    by (simp only: round_half_even_of_int)
  then have "round_mag 9007199254740994 = of_int 4503599627370497 * 2 powi (53 - 52)"
    by (intro round_mag_normal) simp_all
  then have "round_mag 9007199254740994 = 9007199254740994" by simp
  then show ?thesis by (intro rnd64_neg) simp_all
qed

lemma quotient_forward: "rnd64 (- 9007199254740992 / 4194306) = Fin (- 4398044413953 / 2048)"
proof -
  let ?a = "9007199254740992 / 4194306 :: rat"
  have "round_half_even (?a / 2 powi (30 - 52)) = 9007194959775744"
    by (rule round_half_even_nearest) (simp_all add: power_int_minus_divide field_simps)
  then have "round_mag ?a = of_int 9007194959775744 * 2 powi (30 - 52)"
    by (intro round_mag_normal) (simp_all add: field_simps)
  then have "round_mag ?a = 4398044413953 / 2048" by (simp add: power_int_minus_divide)
  then have "rnd64 (- ?a) = Fin (- (4398044413953 / 2048))" by (intro rnd64_neg) simp_all
  then show ?thesis by simp
qed

lemma quotient_backward: "rnd64 (- 9007199254740994 / 4194306) = Fin (- 4503597479887873 / 2097152)"
proof -
  let ?a = "9007199254740994 / 4194306 :: rat"
  have "round_half_even (?a / 2 powi (30 - 52)) = 9007194959775746"
    by (rule round_half_even_nearest) (simp_all add: power_int_minus_divide field_simps)
  then have "round_mag ?a = of_int 9007194959775746 * 2 powi (30 - 52)"
    by (intro round_mag_normal) (simp_all add: field_simps)
  then have "round_mag ?a = 4503597479887873 / 2097152" by (simp add: power_int_minus_divide)
  then have "rnd64 (- ?a) = Fin (- (4503597479887873 / 2097152))" by (intro rnd64_neg) simp_all
  then show ?thesis by simp
qed

lemma round_3_2: "rnd64 (3 / 2) = Fin (3 / 2)"
proof -
  have "(3 / 2) / 2 powi (0 - 52) = (of_int 6755399441055744 :: rat)"
    by (simp add: power_int_minus_divide)
  then have "round_half_even ((3 / 2) / 2 powi (0 - 52)) = 6755399441055744"
    by (simp only: round_half_even_of_int)
  then have "round_mag (3 / 2) = of_int 6755399441055744 * 2 powi (0 - 52)"
    by (intro round_mag_normal) simp_all
  then have "round_mag (3 / 2) = 3 / 2" by (simp add: power_int_minus_divide)
  then show ?thesis by (intro rnd64_pos) simp_all
qed


section \<open>Facts about the summation loop\<close>

lemma sint32_bound: "\<bar>sint (v :: 32 word)\<bar> \<le> 2 ^ 31"
  using sint_ge [of v] sint_lt [of v] by simp

lemma double_of_int_exact: "double_of_int v = Fin (of_int (sint v))"
proof -
  have "\<bar>sint v\<bar> \<le> 2 ^ 53" using sint32_bound [of v] by simp
  then show ?thesis unfolding double_of_int_def by (rule rnd64_int)
qed

lemma sum_loop_append: "sum_loop (xs @ ys) s = sum_loop ys (sum_loop xs s)"
  by (induction xs arbitrary: s) simp_all

lemma sum_loop_foldl: "sum_loop xs s = foldl fadd s (map double_of_int xs)"
  by (induction xs arbitrary: s) simp_all

lemma sum_loop_exact:
  "\<bar>s\<bar> + abs_total xs \<le> 2 ^ 53 \<Longrightarrow>
   sum_loop xs (Fin (of_int s)) = Fin (of_int (s + sum_list (map sint xs)))"
proof (induction xs arbitrary: s)
  case Nil
  then show ?case by simp
next
  case (Cons v xs)
  let ?t = "s + sint v"
  have nn: "0 \<le> abs_total xs" by (auto simp: abs_total_def intro!: sum_list_nonneg)
  have t: "\<bar>?t\<bar> + abs_total xs \<le> 2 ^ 53"
    using Cons.prems by (simp add: abs_total_def)
  then have "\<bar>?t\<bar> \<le> 2 ^ 53" using nn by simp
  then have "rnd64 (of_int ?t) = Fin (of_int ?t)" by (rule rnd64_int)
  then have step: "fadd (Fin (of_int s)) (double_of_int v) = Fin (of_int ?t)"
    by (simp add: double_of_int_exact)
  show ?case using Cons.IH [OF t] by (simp add: step add.assoc)
qed

lemma abs_total_le_length: "abs_total xs \<le> int (length xs) * 2 ^ 31"
proof (induction xs)
  case Nil
  show ?case by (simp add: abs_total_def)
next
  case (Cons v xs)
  have "\<bar>sint v\<bar> \<le> 2 ^ 31" by (rule sint32_bound)
  with Cons show ?case by (simp add: abs_total_def algebra_simps)
qed

lemma abs_total_mset: "mset xs = mset ys \<Longrightarrow> abs_total xs = abs_total ys"
proof -
  assume "mset xs = mset ys"
  then have "mset (map (\<lambda>v. \<bar>sint v\<bar>) xs) = mset (map (\<lambda>v. \<bar>sint v\<bar>) ys)" by simp
  then show ?thesis unfolding abs_total_def by (metis sum_mset_sum_list)
qed

lemma sum_sint_mset:
  "mset xs = mset ys \<Longrightarrow> sum_list (map sint xs) = sum_list (map sint ys)"
proof -
  assume "mset xs = mset ys"
  then have "mset (map sint xs) = mset (map sint ys)" by simp
  then show ?thesis by (metis sum_mset_sum_list)
qed

lemma sum_loop_bounded:
  "\<bar>s\<bar> \<le> 2 ^ 90 \<Longrightarrow> \<exists>t. sum_loop xs (Fin s) = Fin t \<and> \<bar>t\<bar> \<le> 2 ^ 90"
proof (induction xs arbitrary: s)
  case Nil
  then show ?case by simp
next
  case (Cons v xs)
  have "\<bar>of_int (sint v) :: rat\<bar> \<le> of_int (2 ^ 31)"
    using sint32_bound [of v] by (simp only: of_int_abs [symmetric] of_int_le_iff)
  then have "\<bar>s + of_int (sint v)\<bar> \<le> 2 ^ 90 + 2 ^ 32"
    using Cons.prems by simp
  then obtain u where u: "rnd64 (s + of_int (sint v)) = Fin u" "\<bar>u\<bar> \<le> 2 ^ 90"
    using rnd64_bounded by blast
  then have "fadd (Fin s) (double_of_int v) = Fin u"
    by (simp add: double_of_int_exact)
  then show ?case using Cons.IH [OF u(2)] by simp
qed

lemma double_of_size_pos:
  assumes "0 < n"
  shows "double_of_size n = PInf \<or> (\<exists>c. double_of_size n = Fin c \<and> 1 \<le> c)"
proof -
  have "(1::rat) \<le> of_nat n" using assms by simp
  then show ?thesis unfolding double_of_size_def by (rule rnd64_ge_one)
qed

lemma double_of_size_exact:
  assumes "n \<le> 2 ^ 53"
  shows "double_of_size n = Fin (of_nat n)"
proof -
  have "\<bar>int n\<bar> \<le> 2 ^ 53" using assms by simp
  then have "rnd64 (of_int (int n)) = Fin (of_int (int n))" by (rule rnd64_int)
  then show ?thesis by (simp add: double_of_size_def)
qed

text \<open>
  The average is always a number, never NaN and never an infinity, for any samples and
  any number of them: the empty case guards the division, and the running sum stays
  within \<open>2 ^ 90\<close>, where a further sample is rounded away.
\<close>

lemma calculateAverage_is_finite: "\<exists>q. calculateAverage a = Fin q"
proof (cases "data a = []")
  case True
  then show ?thesis by (simp add: calculateAverage_def)
next
  case False
  obtain t where t: "sum_loop (data a) (Fin 0) = Fin t" "\<bar>t\<bar> \<le> 2 ^ 90"
    using sum_loop_bounded [of 0 "data a"] by auto
  from False have "0 < length (data a)" by simp
  then consider "double_of_size (length (data a)) = PInf"
    | c where "double_of_size (length (data a)) = Fin c" "1 \<le> c"
    using double_of_size_pos by blast
  then show ?thesis
  proof cases
    case 1
    then show ?thesis using False t by (simp add: calculateAverage_def)
  next
    case 2
    have "1 * \<bar>t\<bar> \<le> c * \<bar>t\<bar>"
      using 2(2) by (intro mult_right_mono) simp_all
    then have "\<bar>t / c\<bar> \<le> \<bar>t\<bar>"
      using 2(2) by (simp add: abs_divide field_simps)
    then have "\<bar>t / c\<bar> \<le> 2 ^ 90 + 2 ^ 32" using t(2) by simp
    then obtain q where "rnd64 (t / c) = Fin q" using rnd64_bounded by blast
    then show ?thesis using False t 2 by (simp add: calculateAverage_def)
  qed
qed

lemma calculateAverage_by_sum:
  assumes "data a \<noteq> []" "abs_total (data a) \<le> 2 ^ 53"
  shows "calculateAverage a =
         fdiv (Fin (of_int (sum_list (map sint (data a))))) (double_of_size (length (data a)))"
proof -
  have "\<bar>0::int\<bar> + abs_total (data a) \<le> 2 ^ 53" using assms(2) by simp
  then have "sum_loop (data a) (Fin (of_int 0)) = Fin (of_int (0 + sum_list (map sint (data a))))"
    by (rule sum_loop_exact)
  then show ?thesis using assms(1) by (simp add: calculateAverage_def)
qed

lemma calculateAverage_exact:
  assumes "data a \<noteq> []" "length (data a) \<le> 2 ^ 22"
  shows "calculateAverage a =
         rnd64 (of_int (sum_list (map sint (data a))) / of_nat (length (data a)))"
proof -
  have "int (length (data a)) \<le> 2 ^ 22" using assms(2) by simp
  then have "int (length (data a)) * 2 ^ 31 \<le> 2 ^ 22 * 2 ^ 31"
    by (rule mult_right_mono) simp
  then have "abs_total (data a) \<le> 2 ^ 53"
    using abs_total_le_length [of "data a"] by simp
  with assms(1) have s: "calculateAverage a =
      fdiv (Fin (of_int (sum_list (map sint (data a))))) (double_of_size (length (data a)))"
    by (rule calculateAverage_by_sum)
  have "length (data a) \<le> 2 ^ 53" using assms(2) by simp
  then have n: "double_of_size (length (data a)) = Fin (of_nat (length (data a)))"
    by (rule double_of_size_exact)
  show ?thesis using assms(1) unfolding s n by simp
qed


section \<open>Facts about formatting and call sequences\<close>

lemma ilen_10_1: "ilen 10 1 = 1"
proof -
  have "ilen 10 0 = 0" by (subst ilen.simps) simp
  then show ?thesis by (subst ilen.simps) simp
qed

lemma ilog_10_3_2: "ilog 10 (3 / 2) = 0"
proof -
  have "\<lfloor>3 / 2 :: rat\<rfloor> = 1" by (intro floor_unique) simp_all
  then show ?thesis by (simp add: ilog_def ilen_10_1)
qed

lemma digits_150000: "digits 150000 = ''150000''"
  by (simp add: digits.simps digit_char_def)

lemma fmt_g_3_2: "fmt_g (3 / 2) = ''1.5''"
proof -
  have "(3 / 2) / 10 powi (0 - 5) = (of_int 150000 :: rat)"
    by (simp add: power_int_minus_divide)
  then have d0: "round_half_even ((3 / 2) / 10 powi (0 - 5)) = 150000"
    by (simp only: round_half_even_of_int)
  have sz: "strip_zeros ''50000'' = ''5''" by (simp add: strip_zeros_def)
  show ?thesis
    unfolding fmt_g_def ilog_10_3_2 Let_def d0
    by (simp add: digits_150000 with_point_def sz)
qed

lemma data_add_all: "data (add_all vs a) = data a @ vs"
  unfolding add_all_def by (induction vs arbitrary: a) (simp_all add: addData_def)

lemma name_add_all: "name (add_all vs a) = name a"
  unfolding add_all_def by (induction vs arbitrary: a) (simp_all add: addData_def)

lemma data_fresh: "data (add_all vs (Analyzer_ctor n)) = vs"
  by (simp add: data_add_all Analyzer_ctor_def)

lemma printReport_text:
  "printReport a out =
     out @ ''Analyzer: '' @ name a @ [CHR 0x0A] @
     ''Average: '' @ show_double (calculateAverage a) @ [CHR 0x0A]"
  by (simp add: printReport_def endl_def put_string_def put_double_def)

text \<open>The number is printed without a line break, so a report holds two besides the name's.\<close>

lemma digit_char_decimal: "d < 10 \<Longrightarrow> digit_char d \<in> set ''0123456789''"
proof -
  assume "d < 10"
  then have "d < length ''0123456789''" by simp
  then show ?thesis unfolding digit_char_def by (rule nth_mem)
qed

lemma digits_decimal: "set (digits n) \<subseteq> set ''0123456789''"
proof (induction n rule: digits.induct)
  case (1 n)
  show ?case
  proof (cases "n < 10")
    case True
    then have "digits n = [digit_char n]" by (subst digits.simps) simp
    with True show ?thesis using digit_char_decimal [of n] by simp
  next
    case False
    then have d: "digits n = digits (n div 10) @ [digit_char (n mod 10)]"
      by (subst digits.simps) simp
    have "digit_char (n mod 10) \<in> set ''0123456789''"
      by (rule digit_char_decimal) simp
    with 1 False show ?thesis unfolding d by simp
  qed
qed

lemma digits_no_break: "CHR 0x0A \<notin> set (digits n)"
  using digits_decimal [of n] by auto

lemma strip_zeros_subset: "set (strip_zeros s) \<subseteq> set s"
  by (auto simp: strip_zeros_def dest: set_dropWhileD)

lemma with_point_no_break:
  "CHR 0x0A \<notin> set ip \<Longrightarrow> CHR 0x0A \<notin> set fr \<Longrightarrow> CHR 0x0A \<notin> set (with_point ip fr)"
  by (simp add: with_point_def)

lemma fmt_g_no_break: "CHR 0x0A \<notin> set (fmt_g a)"
proof -
  have t: "CHR 0x0A \<notin> set (take k (digits n))" for k n
    using digits_no_break [of n] by (auto dest: in_set_takeD)
  have s: "CHR 0x0A \<notin> set (strip_zeros (drop k (digits n)))" for k n
    using digits_no_break [of n] strip_zeros_subset [of "drop k (digits n)"]
    by (auto dest: in_set_dropD)
  have z: "CHR 0x0A \<notin> set (strip_zeros (digits n))" for n
    using digits_no_break [of n] strip_zeros_subset [of "digits n"] by auto
  have w: "CHR 0x0A \<notin> set (with_point (take k (digits n)) (strip_zeros (drop k (digits n))))"
    for k n by (rule with_point_no_break [OF t s])
  show ?thesis
    unfolding fmt_g_def Let_def
    by (simp add: w z digits_no_break)
qed

lemma show_double_no_break: "CHR 0x0A \<notin> set (show_double d)"
  by (cases d) (simp_all add: fmt_g_no_break)

lemma printReport_breaks:
  "count_list (printReport a out) (CHR 0x0A) =
     count_list out (CHR 0x0A) + count_list (name a) (CHR 0x0A) + 2"
  by (simp add: printReport_text show_double_no_break)

lemma run_data: "data (fst (run cs (a, out))) = data a @ added cs"
proof (induction cs arbitrary: a out)
  case Nil
  show ?case by simp
next
  case (Cons c cs)
  show ?case by (cases c) (simp_all add: Cons.IH addData_def)
qed

lemma run_name: "name (fst (run cs (a, out))) = name a"
proof (induction cs arbitrary: a out)
  case Nil
  show ?case by simp
next
  case (Cons c cs)
  show ?case by (cases c) (simp_all add: Cons.IH addData_def)
qed

lemma run_queries:
  "added cs = [] \<Longrightarrow>
   run cs (a, out) = (a, out @ concat (replicate (count_list cs PrintReport) (printReport a [])))"
proof (induction cs arbitrary: out)
  case Nil
  show ?case by simp
next
  case (Cons c cs)
  show ?case
  proof (cases c)
    case (AddData v)
    with Cons.prems show ?thesis by simp
  next
    case CalculateAverage
    with Cons show ?thesis by simp
  next
    case PrintReport
    have "printReport a out = out @ printReport a []" by (simp add: printReport_text)
    with PrintReport Cons show ?thesis by simp
  qed
qed

lemma run_adds: "run (map AddData vs) (a, out) = (add_all vs a, out)"
  unfolding add_all_def by (induction vs arbitrary: a) simp_all


section \<open>The claims\<close>

text \<open>
  C1, as amended. For every non-empty sequence of samples added with \<^verbatim>\<open>addData\<close> to a new
  object (in any number of calls), \<^verbatim>\<open>calculateAverage\<close> returns the floating-point mean as
  the specification words it: each sample widened to \<^verbatim>\<open>double\<close>, the sum and the division
  taken in floating point. For up to \<open>2 ^ 22\<close> samples no addition rounds, and the result is
  the true quotient of the integer sum by the count, rounded once.
\<close>

theorem calculateAverage_is_mean:
  assumes "vs \<noteq> []"
  shows "calculateAverage (add_all vs (Analyzer_ctor n)) = spec_mean vs \<and>
         (length vs \<le> 2 ^ 22 \<longrightarrow>
            calculateAverage (add_all vs (Analyzer_ctor n)) =
              rnd64 (of_int (sum_list (map sint vs)) / of_nat (length vs)))"
proof -
  let ?a = "add_all vs (Analyzer_ctor n)"
  have d: "data ?a = vs" by (rule data_fresh)
  have "calculateAverage ?a = spec_mean vs"
    using assms by (simp add: calculateAverage_def d spec_mean_def float_sum_def sum_loop_foldl)
  moreover have "calculateAverage ?a =
      rnd64 (of_int (sum_list (map sint vs)) / of_nat (length vs))" if "length vs \<le> 2 ^ 22"
    using calculateAverage_exact [of ?a] assms that unfolding d by simp
  ultimately show ?thesis by simp
qed

theorem calculateAverage_is_mean_witness:
  "[1, 2 :: 32 word] \<noteq> [] \<and> length [1, 2 :: 32 word] \<le> 2 ^ 22 \<and>
   calculateAverage (add_all [1, 2] (Analyzer_ctor ''Sensor-C'')) = spec_mean [1, 2] \<and>
   calculateAverage (add_all [1, 2] (Analyzer_ctor ''Sensor-C'')) = Fin (3 / 2)"
proof -
  let ?a = "add_all [1, 2] (Analyzer_ctor ''Sensor-C'')"
  have ne: "[1, 2 :: 32 word] \<noteq> []" by simp
  have le: "length [1, 2 :: 32 word] \<le> 2 ^ 22" by simp
  note mean = calculateAverage_is_mean [OF ne, of "''Sensor-C''"]
  from mean have m: "calculateAverage ?a = spec_mean [1, 2]" by (rule conjunct1)
  from mean have "length [1, 2 :: 32 word] \<le> 2 ^ 22 \<longrightarrow> calculateAverage ?a =
      rnd64 (of_int (sum_list (map sint [1, 2 :: 32 word])) / of_nat (length [1, 2 :: 32 word]))"
    by (rule conjunct2)
  with le have "calculateAverage ?a =
      rnd64 (of_int (sum_list (map sint [1, 2 :: 32 word])) / of_nat (length [1, 2 :: 32 word]))"
    by (rule rev_mp)
  then have q: "calculateAverage ?a = Fin (3 / 2)" by (simp add: round_3_2)
  from ne le m q show ?thesis by (intro conjI)
qed

text \<open>
  C1 as stated fails for the empty sequence, which is a finite sequence added in no call
  at all: in floating point the sum \<open>0.0\<close> divided by the count \<open>0\<close> is NaN, and the code
  returns \<open>0.0\<close> there.
\<close>

theorem mean_of_no_samples:
  "calculateAverage (add_all [] (Analyzer_ctor ''Sensor-A'')) = Fin 0 \<and>
   spec_mean [] = NaN \<and>
   calculateAverage (add_all [] (Analyzer_ctor ''Sensor-A'')) \<noteq> spec_mean []"
proof -
  have c: "calculateAverage (add_all [] (Analyzer_ctor ''Sensor-A'')) = Fin 0"
    by (simp add: calculateAverage_def data_fresh)
  have s: "spec_mean [] = NaN"
    by (simp add: spec_mean_def float_sum_def double_of_size_def rnd64_def)
  show ?thesis unfolding c s by simp
qed

text \<open>
  C2. With no samples, in particular on a new object, \<^verbatim>\<open>calculateAverage\<close> returns exactly
  \<open>0.0\<close>: the call hands back that number as an ordinary value and changes nothing.
\<close>

theorem calculateAverage_empty:
  assumes "data a = []"
  shows "calculateAverage a = Fin 0 \<and>
         invoke CalculateAverage (a, out) = (Value (Fin 0), a, out) \<and>
         calculateAverage (Analyzer_ctor n) = Fin 0"
  using assms by (simp add: calculateAverage_def Analyzer_ctor_def)

theorem calculateAverage_empty_witness:
  "data (Analyzer_ctor ''Sensor-A'') = [] \<and>
   calculateAverage (Analyzer_ctor ''Sensor-A'') = Fin 0 \<and>
   invoke CalculateAverage (Analyzer_ctor ''Sensor-A'', []) =
     (Value (Fin 0), Analyzer_ctor ''Sensor-A'', [])"
proof -
  have e: "data (Analyzer_ctor ''Sensor-A'') = []" by (simp add: Analyzer_ctor_def)
  show ?thesis
    using e calculateAverage_empty [OF e, of "[]" "''Sensor-A''"] by simp
qed

text \<open>
  C3, as amended. Two orderings of the same samples give the same average whenever the
  magnitudes of the samples add up to at most \<open>2 ^ 53\<close> (so for any samples when there are
  at most \<open>2 ^ 22 = 4194304\<close> of them): then no partial sum is rounded.
\<close>

theorem mean_order_independent:
  assumes "mset xs = mset ys" and "abs_total xs \<le> 2 ^ 53"
  shows "calculateAverage (add_all xs (Analyzer_ctor n)) =
         calculateAverage (add_all ys (Analyzer_ctor n))"
proof (cases "xs = []")
  case True
  with assms(1) show ?thesis by simp
next
  case False
  with assms(1) have ys: "ys \<noteq> []" by auto
  let ?a = "add_all xs (Analyzer_ctor n)" and ?b = "add_all ys (Analyzer_ctor n)"
  have da: "data ?a = xs" and db: "data ?b = ys" by (rule data_fresh)+
  have ty: "abs_total ys \<le> 2 ^ 53" using assms abs_total_mset [of xs ys] by simp
  have "calculateAverage ?a =
      fdiv (Fin (of_int (sum_list (map sint xs)))) (double_of_size (length xs))"
    using calculateAverage_by_sum [of ?a] False assms(2) unfolding da by simp
  moreover have "calculateAverage ?b =
      fdiv (Fin (of_int (sum_list (map sint ys)))) (double_of_size (length ys))"
    using calculateAverage_by_sum [of ?b] ys ty unfolding db by simp
  moreover have "sum_list (map sint xs) = sum_list (map sint ys)"
    using assms(1) by (rule sum_sint_mset)
  moreover have "length xs = length ys" using assms(1) by (rule mset_eq_length)
  ultimately show ?thesis by simp
qed

theorem mean_order_independent_witness:
  "mset [10, 20, 30] = mset [30, 10, 20 :: 32 word] \<and>
   abs_total [10, 20, 30] \<le> 2 ^ 53 \<and>
   calculateAverage (add_all [10, 20, 30] (Analyzer_ctor ''Sensor-B'')) =
   calculateAverage (add_all [30, 10, 20] (Analyzer_ctor ''Sensor-B''))"
proof -
  have m: "mset [10, 20, 30] = mset [30, 10, 20 :: 32 word]" by simp
  have t: "abs_total [10, 20, 30] \<le> 2 ^ 53" by (simp add: abs_total_def)
  show ?thesis using m t mean_order_independent [OF m t, of "''Sensor-B''"] by simp
qed

text \<open>
  C3 as stated fails. Take \<open>2 ^ 22\<close> samples \<open>INT_MIN\<close> and two samples \<open>-1\<close>. With the
  \<open>-1\<close>s last the sum reaches \<open>-2 ^ 53\<close> exactly and each \<open>-1\<close> is then rounded away (a
  tie, to the even neighbour); with the \<open>-1\<close>s first every partial sum is exact and the
  sum is \<open>-(2 ^ 53 + 2)\<close>. The two quotients by \<open>4194306\<close> are different doubles.
\<close>

theorem mean_order_dependent:
  "mset (replicate 4194304 (- 2147483648) @ [- 1, - 1]) =
     mset ([- 1, - 1] @ replicate 4194304 (- 2147483648 :: 32 word)) \<and>
   calculateAverage (add_all (replicate 4194304 (- 2147483648) @ [- 1, - 1])
      (Analyzer_ctor ''Sensor'')) = Fin (- 4398044413953 / 2048) \<and>
   calculateAverage (add_all ([- 1, - 1] @ replicate 4194304 (- 2147483648))
      (Analyzer_ctor ''Sensor'')) = Fin (- 4503597479887873 / 2097152) \<and>
   calculateAverage (add_all (replicate 4194304 (- 2147483648) @ [- 1, - 1])
      (Analyzer_ctor ''Sensor'')) \<noteq>
   calculateAverage (add_all ([- 1, - 1] @ replicate 4194304 (- 2147483648))
      (Analyzer_ctor ''Sensor''))"
proof -
  let ?m = "- 2147483648 :: 32 word"
  let ?A = "replicate 4194304 ?m @ [- 1, - 1]"
  let ?B = "[- 1, - 1] @ replicate 4194304 ?m"
  have sm: "sint ?m = - 2147483648" by simp
  have s1: "sint (- 1 :: 32 word) = - 1" by simp
  have tot: "abs_total (replicate k ?m) = int k * 2147483648" for k
    by (induction k) (simp_all add: abs_total_def sm algebra_simps)
  have n: "double_of_size 4194306 = Fin 4194306"
    using double_of_size_exact [of 4194306] by simp
  \<comment> \<open>the \<open>-1\<close>s last\<close>
  have "\<bar>0::int\<bar> + abs_total (replicate 4194304 ?m) \<le> 2 ^ 53" by (simp add: tot)
  then have "sum_loop (replicate 4194304 ?m) (Fin (of_int 0)) =
      Fin (of_int (0 + sum_list (map sint (replicate 4194304 ?m))))"
    by (rule sum_loop_exact)
  then have a1: "sum_loop (replicate 4194304 ?m) (Fin 0) = Fin (- 9007199254740992)"
    by (simp add: sum_list_replicate)
  have a2: "fadd (Fin (- 9007199254740992)) (double_of_int (- 1)) = Fin (- 9007199254740992)"
    by (simp add: double_of_int_exact round_tie_at_2_53)
  have sa: "sum_loop ?A (Fin 0) = Fin (- 9007199254740992)"
    by (simp only: sum_loop_append a1 sum_loop.simps a2)
  have da: "data (add_all ?A (Analyzer_ctor ''Sensor'')) = ?A" by (rule data_fresh)
  have la: "length ?A = 4194306" by simp
  have ne: "?A \<noteq> []" by simp
  have ca: "calculateAverage (add_all ?A (Analyzer_ctor ''Sensor'')) =
      Fin (- 4398044413953 / 2048)"
    unfolding calculateAverage_def da la sa n using ne quotient_forward by simp
  \<comment> \<open>the \<open>-1\<close>s first\<close>
  have b0: "sum_loop [- 1, - 1] (Fin 0) = Fin (of_int (- 2))"
    using sum_loop_exact [of 0 "[- 1, - 1 :: 32 word]"] by (simp add: abs_total_def)
  have "\<bar>- 2 :: int\<bar> + abs_total (replicate 4194303 ?m) \<le> 2 ^ 53" by (simp add: tot)
  then have "sum_loop (replicate 4194303 ?m) (Fin (of_int (- 2))) =
      Fin (of_int (- 2 + sum_list (map sint (replicate 4194303 ?m))))"
    by (rule sum_loop_exact)
  then have b1: "sum_loop (replicate 4194303 ?m) (Fin (of_int (- 2))) = Fin (- 9007197107257346)"
    by (simp add: sum_list_replicate)
  have b2: "fadd (Fin (- 9007197107257346)) (double_of_int ?m) = Fin (- 9007199254740994)"
    by (simp add: double_of_int_exact round_even_above_2_53)
  have "(4194304 :: nat) = Suc 4194303" by simp
  then have "replicate 4194304 ?m = ?m # replicate 4194303 ?m"
    by (simp only: replicate_Suc)
  then have rep: "replicate 4194304 ?m = replicate 4194303 ?m @ [?m]"
    by (simp only: replicate_append_same)
  have "sum_loop ?B (Fin 0) =
      sum_loop [?m] (sum_loop (replicate 4194303 ?m) (sum_loop [- 1, - 1] (Fin 0)))"
    unfolding rep by (simp only: sum_loop_append)
  also have "\<dots> = sum_loop [?m] (Fin (- 9007197107257346))"
    by (simp only: b0 b1)
  also have "\<dots> = Fin (- 9007199254740994)"
    by (simp only: sum_loop.simps b2)
  finally have sb: "sum_loop ?B (Fin 0) = Fin (- 9007199254740994)" .
  have db: "data (add_all ?B (Analyzer_ctor ''Sensor'')) = ?B" by (rule data_fresh)
  have lb: "length ?B = 4194306" by simp
  have neb: "?B \<noteq> []" by simp
  have cb: "calculateAverage (add_all ?B (Analyzer_ctor ''Sensor'')) =
      Fin (- 4503597479887873 / 2097152)"
    unfolding calculateAverage_def db lb sb n using neb quotient_backward by simp
  have ms: "mset ?A = mset ?B" by (simp only: mset_append add.commute)
  have "(- 4398044413953 / 2048 :: rat) \<noteq> - 4503597479887873 / 2097152" by simp
  then show ?thesis using ms ca cb by simp
qed

text \<open>
  C4, as amended. \<^verbatim>\<open>printReport\<close> appends to standard output \<open>Analyzer: \<close>, the name and a
  line break, then \<open>Average: \<close>, the average of the samples held at the call
  (\<^verbatim>\<open>calculateAverage\<close> of the object as it is, also right after an \<^verbatim>\<open>addData\<close>) in the
  stream's default format, and a line break. The text appended holds two line breaks more
  than the name does, so it is exactly two lines whenever the name holds no line break.
  For the name \<open>Sensor-C\<close> and the samples \<open>1, 2\<close> the output is \<open>Analyzer: Sensor-C\<close> and
  \<open>Average: 1.5\<close>.
\<close>

theorem printReport_output:
  "printReport a out =
     out @ ''Analyzer: '' @ name a @ [CHR 0x0A] @
     ''Average: '' @ show_double (calculateAverage a) @ [CHR 0x0A] \<and>
   printReport (addData v a) out =
     out @ ''Analyzer: '' @ name a @ [CHR 0x0A] @
     ''Average: '' @ show_double (calculateAverage (addData v a)) @ [CHR 0x0A] \<and>
   count_list (printReport a out) (CHR 0x0A) =
     count_list out (CHR 0x0A) + count_list (name a) (CHR 0x0A) + 2 \<and>
   (CHR 0x0A \<notin> set (name a) \<longrightarrow> count_list (printReport a []) (CHR 0x0A) = 2) \<and>
   printReport (add_all [1, 2] (Analyzer_ctor ''Sensor-C'')) [] =
     ''Analyzer: Sensor-C'' @ [CHR 0x0A] @ ''Average: 1.5'' @ [CHR 0x0A]"
proof -
  let ?c = "add_all [1, 2] (Analyzer_ctor ''Sensor-C'')"
  have d: "data ?c = [1, 2]" by (rule data_fresh)
  have "calculateAverage ?c =
      rnd64 (of_int (sum_list (map sint (data ?c))) / of_nat (length (data ?c)))"
    by (rule calculateAverage_exact) (simp_all add: d)
  then have avg: "calculateAverage ?c = Fin (3 / 2)"
    by (simp add: d round_3_2)
  have nm: "name ?c = ''Sensor-C''" by (simp add: name_add_all Analyzer_ctor_def)
  have sc: "printReport ?c [] =
      ''Analyzer: Sensor-C'' @ [CHR 0x0A] @ ''Average: 1.5'' @ [CHR 0x0A]"
    by (simp add: printReport_text avg nm fmt_g_3_2)
  have ad: "name (addData v a) = name a" by (simp add: addData_def)
  have p1: "printReport a out =
     out @ ''Analyzer: '' @ name a @ [CHR 0x0A] @
     ''Average: '' @ show_double (calculateAverage a) @ [CHR 0x0A]"
    by (rule printReport_text)
  have p2: "printReport (addData v a) out =
     out @ ''Analyzer: '' @ name a @ [CHR 0x0A] @
     ''Average: '' @ show_double (calculateAverage (addData v a)) @ [CHR 0x0A]"
    using printReport_text [of "addData v a" out] by (simp only: ad)
  have p3: "count_list (printReport a out) (CHR 0x0A) =
     count_list out (CHR 0x0A) + count_list (name a) (CHR 0x0A) + 2"
    by (rule printReport_breaks)
  have p4: "CHR 0x0A \<notin> set (name a) \<longrightarrow> count_list (printReport a []) (CHR 0x0A) = 2"
    by (simp add: printReport_breaks)
  from p1 p2 p3 p4 sc show ?thesis by (intro conjI)
qed

theorem printReport_output_witness:
  "CHR 0x0A \<notin> set (name (add_all [1, 2] (Analyzer_ctor ''Sensor-C''))) \<and>
   count_list (printReport (add_all [1, 2] (Analyzer_ctor ''Sensor-C'')) []) (CHR 0x0A) = 2"
proof -
  let ?c = "add_all [1, 2] (Analyzer_ctor ''Sensor-C'')"
  have nm: "name ?c = ''Sensor-C''" by (simp add: name_add_all Analyzer_ctor_def)
  have nb: "CHR 0x0A \<notin> set (name ?c)" unfolding nm by simp
  have "CHR 0x0A \<notin> set (name ?c) \<longrightarrow> count_list (printReport ?c []) (CHR 0x0A) = 2"
    using printReport_output [of ?c "[]" 0] by (elim conjE)
  with nb have "count_list (printReport ?c []) (CHR 0x0A) = 2" by (rule rev_mp)
  with nb show ?thesis by (rule conjI)
qed

text \<open>
  C4 as stated fails for a name that holds a line break, which the constructor accepts:
  the report of a new object named \<open>Lab\<close>, line break, \<open>B\<close> has three lines.
\<close>

theorem report_of_two_line_name:
  "printReport (Analyzer_ctor (''Lab'' @ [CHR 0x0A] @ ''B'')) [] =
     ''Analyzer: Lab'' @ [CHR 0x0A] @ ''B'' @ [CHR 0x0A] @ ''Average: 0'' @ [CHR 0x0A] \<and>
   count_list (printReport (Analyzer_ctor (''Lab'' @ [CHR 0x0A] @ ''B'')) []) (CHR 0x0A) = 3 \<and>
   count_list (printReport (Analyzer_ctor (''Lab'' @ [CHR 0x0A] @ ''B'')) []) (CHR 0x0A) \<noteq> 2"
proof -
  let ?a = "Analyzer_ctor (''Lab'' @ [CHR 0x0A] @ ''B'')"
  have avg: "calculateAverage ?a = Fin 0" by (simp add: calculateAverage_def Analyzer_ctor_def)
  have nm: "name ?a = ''Lab'' @ [CHR 0x0A] @ ''B''" by (simp add: Analyzer_ctor_def)
  have t: "printReport ?a [] =
     ''Analyzer: Lab'' @ [CHR 0x0A] @ ''B'' @ [CHR 0x0A] @ ''Average: 0'' @ [CHR 0x0A]"
    unfolding printReport_text avg nm by simp
  show ?thesis unfolding t by simp
qed

text \<open>
  C5. \<^verbatim>\<open>addData\<close> appends exactly the given value at the end of the samples: the name and
  the samples stored before are unchanged, the length grows by one; the call returns
  normally and writes nothing.
\<close>

theorem addData_appends:
  "addData v a = \<lparr>name = name a, data = data a @ [v]\<rparr> \<and>
   name (addData v a) = name a \<and>
   take (length (data a)) (data (addData v a)) = data a \<and>
   last (data (addData v a)) = v \<and>
   length (data (addData v a)) = length (data a) + 1 \<and>
   invoke (AddData v) (a, out) = (Void, addData v a, out)"
  by (simp add: addData_def)

text \<open>
  C7. Any number of \<^verbatim>\<open>printReport\<close> calls with no \<^verbatim>\<open>addData\<close> in between (calls of
  \<^verbatim>\<open>calculateAverage\<close> may come in between) write the same text every time, the report
  of the object as it is, and leave the object as it was.
\<close>

theorem printReport_repeatable:
  assumes "added cs = []"
  shows "run cs (a, out) =
         (a, out @ concat (replicate (count_list cs PrintReport) (printReport a [])))"
  using assms by (rule run_queries)

theorem printReport_repeatable_witness:
  "added [PrintReport, CalculateAverage, PrintReport] = [] \<and>
   run [PrintReport, CalculateAverage, PrintReport]
     (add_all [1, 2] (Analyzer_ctor ''Sensor-C''), []) =
   (add_all [1, 2] (Analyzer_ctor ''Sensor-C''),
    printReport (add_all [1, 2] (Analyzer_ctor ''Sensor-C'')) [] @
    printReport (add_all [1, 2] (Analyzer_ctor ''Sensor-C'')) [])"
proof -
  let ?cs = "[PrintReport, CalculateAverage, PrintReport]"
  let ?a = "add_all [1, 2] (Analyzer_ctor ''Sensor-C'')"
  have n: "added ?cs = []" by simp
  have "count_list ?cs PrintReport = Suc (Suc 0)" by simp
  then have "run ?cs (?a, []) = (?a, printReport ?a [] @ printReport ?a [])"
    using printReport_repeatable [OF n, of ?a "[]"] by (simp del: run.simps)
  with n show ?thesis by (rule conjI)
qed

text \<open>
  C8. The samples are append-only. After any sequence of calls the samples are the ones
  held before, unchanged and in their order, followed by the added values in the order of
  the calls; so the length never decreases; and the name is the one set at construction.
\<close>

theorem samples_append_only:
  "data (fst (run cs (a, out))) = data a @ added cs \<and>
   prefix (data a) (data (fst (run cs (a, out)))) \<and>
   length (data a) \<le> length (data (fst (run cs (a, out)))) \<and>
   name (fst (run cs (a, out))) = name a \<and>
   name (fst (run cs (Analyzer_ctor n, out))) = n"
  by (simp add: run_data run_name Analyzer_ctor_def)

text \<open>
  C9. An object constructed with the name \<open>Sensor-B\<close>, to which \<open>10\<close>, \<open>20\<close>, \<open>30\<close> are
  added in that order, returns exactly \<open>20.0\<close> from \<^verbatim>\<open>calculateAverage\<close>.
\<close>

theorem scenario_sensor_b:
  "fst (invoke CalculateAverage
     (run [AddData 10, AddData 20, AddData 30] (Analyzer_ctor ''Sensor-B'', []))) =
   Value (Fin 20)"
proof -
  let ?b = "add_all [10, 20, 30] (Analyzer_ctor ''Sensor-B'')"
  have r: "run [AddData 10, AddData 20, AddData 30] (Analyzer_ctor ''Sensor-B'', []) = (?b, [])"
    using run_adds [of "[10, 20, 30]" "Analyzer_ctor ''Sensor-B''" "[]"] by simp
  have d: "data ?b = [10, 20, 30]" by (rule data_fresh)
  have "calculateAverage ?b =
      rnd64 (of_int (sum_list (map sint (data ?b))) / of_nat (length (data ?b)))"
    by (rule calculateAverage_exact) (simp_all add: d)
  then have q: "calculateAverage ?b = rnd64 (of_int 20)" by (simp add: d)
  have "rnd64 (of_int 20) = Fin (of_int 20)" by (rule rnd64_int) simp
  then have "calculateAverage ?b = Fin 20" unfolding q by simp
  then show ?thesis unfolding r by simp
qed

text \<open>
  C10. \<^verbatim>\<open>calculateAverage\<close> and \<^verbatim>\<open>printReport\<close> are \<^verbatim>\<open>const\<close>: after either call the
  object, its name and its samples, is what it was before.
\<close>

theorem queries_keep_state:
  "fst (snd (invoke CalculateAverage (a, out))) = a \<and>
   fst (snd (invoke PrintReport (a, out))) = a \<and>
   fst (run [CalculateAverage, PrintReport] (a, out)) = a"
  by simp

end
